theory Spec2Isabelle
  imports Main "HOL-Library.Word"
begin

unbundle bit_operations_syntax

section \<open>The button test of board_diag.c\<close>

subsection \<open>Program state\<close>

text \<open>
  The program takes the address of exactly one \<open>int\<close> object, the global
  \<open>edge_capture\<close>; it is the \<open>context\<close> handed to the interrupt registration.
\<close>

datatype int_ptr = Addr_edge_capture

text \<open>
  One record holds everything the button test reads or writes:
  \<^item> the two registers of the button PIO that the code accesses
    (\<open>IRQ_MASK\<close> and \<open>EDGE_CAP\<close>), as 32-bit words;
  \<^item> the registration slot of the button interrupt: \<open>None\<close> when no handler is
    registered, \<open>Some p\<close> when \<open>handle_button_interrupts\<close> is registered with
    context \<open>p\<close> (it is the only handler the program ever registers);
  \<^item> the global \<open>volatile int edge_capture\<close>;
  \<^item> the locals of \<open>TestButtons\<close>: \<open>alt_u8 buttons_tested\<close>,
    \<open>alt_u8 all_tested\<close>, \<open>int last_tested\<close>;
  \<^item> the strings written by \<open>printf\<close>, one list element per call.
\<close>

record machine =
  pio_irq_mask :: "32 word"
  pio_edge_cap :: "32 word"
  button_isr :: "int_ptr option"
  edge_capture :: "32 word"
  buttons_tested :: "8 word"
  all_tested :: "8 word"
  last_tested :: "32 word"
  stdout :: "string list"

definition printf :: "string \<Rightarrow> machine \<Rightarrow> machine" where
  "printf s st = st\<lparr>stdout := stdout st @ [s]\<rparr>"

subsection \<open>Peripheral register interface\<close>

text \<open>
  Modelled from the spec: the macros \<open>IORD_ALTERA_AVALON_PIO_EDGE_CAP\<close>,
  \<open>IOWR_ALTERA_AVALON_PIO_EDGE_CAP\<close> and \<open>IOWR_ALTERA_AVALON_PIO_IRQ_MASK\<close>
  come from headers that are not part of the source. Following the external
  interface of the spec (\<open>read_edge_capture\<close>, \<open>clear_edge_capture\<close>,
  \<open>set_interrupt_mask\<close>) a read returns the register and a write replaces it.
\<close>

definition IORD_ALTERA_AVALON_PIO_EDGE_CAP :: "machine \<Rightarrow> 32 word" where
  "IORD_ALTERA_AVALON_PIO_EDGE_CAP st = pio_edge_cap st"

definition IOWR_ALTERA_AVALON_PIO_EDGE_CAP :: "32 word \<Rightarrow> machine \<Rightarrow> machine" where
  "IOWR_ALTERA_AVALON_PIO_EDGE_CAP v st = st\<lparr>pio_edge_cap := v\<rparr>"

definition IOWR_ALTERA_AVALON_PIO_IRQ_MASK :: "32 word \<Rightarrow> machine \<Rightarrow> machine" where
  "IOWR_ALTERA_AVALON_PIO_IRQ_MASK v st = st\<lparr>pio_irq_mask := v\<rparr>"

text \<open>
  Modelled from the spec: \<open>alt_irq_register\<close> / \<open>alt_ic_isr_register\<close> belong
  to the board support library. Following \<open>register_handler(callback, context)\<close>
  and \<open>unregister_handler()\<close> of the spec, registering stores the context in the
  slot and registering a null handler empties it.
\<close>

definition alt_irq_register :: "int_ptr option \<Rightarrow> machine \<Rightarrow> machine" where
  "alt_irq_register reg st = st\<lparr>button_isr := reg\<rparr>"

text \<open>A store through an \<open>int\<close> pointer.\<close>

fun store_int :: "int_ptr \<Rightarrow> 32 word \<Rightarrow> machine \<Rightarrow> machine" where
  "store_int Addr_edge_capture v st = st\<lparr>edge_capture := v\<rparr>"

subsection \<open>Interrupt handler and lifecycle\<close>

text \<open>
  \<open>handle_button_interrupts\<close>: store the edge-capture register in \<open>*context\<close>,
  write zero to the register, read the register once more and drop the value.
\<close>

definition handle_button_interrupts :: "int_ptr \<Rightarrow> machine \<Rightarrow> machine" where
  "handle_button_interrupts context st =
     (let edge_capture_ptr = context;
          st1 = store_int edge_capture_ptr (IORD_ALTERA_AVALON_PIO_EDGE_CAP st) st;
          st2 = IOWR_ALTERA_AVALON_PIO_EDGE_CAP 0 st1;
          delay = IORD_ALTERA_AVALON_PIO_EDGE_CAP st2
      in st2)"

definition init_button_pio :: "machine \<Rightarrow> machine" where
  "init_button_pio st =
     (let edge_capture_ptr = Addr_edge_capture;
          st1 = IOWR_ALTERA_AVALON_PIO_IRQ_MASK 0xf st;
          st2 = IOWR_ALTERA_AVALON_PIO_EDGE_CAP 0x0 st1
      in alt_irq_register (Some edge_capture_ptr) st2)"

definition disable_button_pio :: "machine \<Rightarrow> machine" where
  "disable_button_pio st =
     alt_irq_register None (IOWR_ALTERA_AVALON_PIO_IRQ_MASK 0x0 st)"

text \<open>
  Modelled from the spec: the hardware and the interrupt-dispatch facility are
  outside the source. An edge event \<open>v\<close> latches its bits into the edge-capture
  register ("latches a bit for each input line that transitioned since last
  cleared"); the interrupt is raised when a latched bit is enabled in the
  interrupt mask, and the dispatcher then calls the registered handler with
  the registered context, if there is one.
\<close>

definition button_edge :: "32 word \<Rightarrow> machine \<Rightarrow> machine" where
  "button_edge v st =
     (let st1 = st\<lparr>pio_edge_cap := pio_edge_cap st OR v\<rparr>
      in if pio_edge_cap st1 AND pio_irq_mask st1 \<noteq> 0
         then (case button_isr st1 of
                 None \<Rightarrow> st1
               | Some context \<Rightarrow> handle_button_interrupts context st1)
         else st1)"

fun button_edges :: "32 word list \<Rightarrow> machine \<Rightarrow> machine" where
  "button_edges [] st = st"
| "button_edges (v # vs) st = button_edges vs (button_edge v st)"

subsection \<open>TestButtons\<close>

definition msg_intro :: string where
  "msg_intro = ''\<newline>A loop will be run until all buttons/switches have been pressed.\<newline>\<newline>''"

definition msg_note :: string where
  "msg_note = ''\<newline>'' @ [CHR 0x09]
     @ ''NOTE:  Once a button press has been detected, for a particular button,\<newline>''
     @ [CHR 0x09] @ ''any further presses will be ignored!\<newline>\<newline>''"

definition msg_button1 :: string where
  "msg_button1 = ''\<newline>Button 1 (SW0) Pressed.\<newline>''"

definition msg_button2 :: string where
  "msg_button2 = ''\<newline>Button 2 (SW1) Pressed.\<newline>''"

definition msg_button3 :: string where
  "msg_button3 = ''\<newline>Button 3 (SW2) Pressed.\<newline>''"

definition msg_button4 :: string where
  "msg_button4 = ''\<newline>Button 4 (SW3) Pressed.\<newline>''"


text \<open>
  The part of \<open>TestButtons\<close> before the loop: \<open>init_button_pio()\<close>, the
  initialisation of the locals and of \<open>edge_capture\<close>, and the two messages.
\<close>

definition TestButtons_arm :: "machine \<Rightarrow> machine" where
  "TestButtons_arm st =
     (let st1 = init_button_pio st;
          st2 = st1\<lparr>buttons_tested := 0x0\<rparr>;
          st3 = st2\<lparr>all_tested := 0xf\<rparr>;
          st4 = st3\<lparr>edge_capture := 0\<rparr>;
          st5 = st4\<lparr>last_tested := 0xffff\<rparr>
      in printf msg_note (printf msg_intro st5))"

text \<open>
  One execution of the loop body when no interrupt is taken inside it. The body
  reads \<open>edge_capture\<close> for the comparison (line 511), for the assignment to
  \<open>last_tested\<close> (line 517) and for the \<open>switch\<close> (line 518); here the three reads
  return the same value. \<open>continue\<close> and \<open>break\<close> both end the iteration.
\<close>

definition TestButtons_body :: "machine \<Rightarrow> machine" where
  "TestButtons_body st =
     (if last_tested st = edge_capture st then st
      else
        let st1 = st\<lparr>last_tested := edge_capture st\<rparr> in
        if edge_capture st1 = 0x1 then
          (if buttons_tested st1 AND 0x1 \<noteq> 0 then st1
           else (printf msg_button1 st1)\<lparr>buttons_tested := buttons_tested st1 OR 0x1\<rparr>)
        else if edge_capture st1 = 0x2 then
          (if buttons_tested st1 AND 0x2 \<noteq> 0 then st1
           else (printf msg_button2 st1)\<lparr>buttons_tested := buttons_tested st1 OR 0x2\<rparr>)
        else if edge_capture st1 = 0x4 then
          (if buttons_tested st1 AND 0x4 \<noteq> 0 then st1
           else (printf msg_button3 st1)\<lparr>buttons_tested := buttons_tested st1 OR 0x4\<rparr>)
        else if edge_capture st1 = 0x8 then
          (if buttons_tested st1 AND 0x8 \<noteq> 0 then st1
           else (printf msg_button4 st1)\<lparr>buttons_tested := buttons_tested st1 OR 0x8\<rparr>)
        else st1)"

text \<open>
  The same body with the three reads of the volatile \<open>edge_capture\<close> made
  explicit: \<open>r1\<close> is the value compared with \<open>last_tested\<close>, \<open>r2\<close> the value
  assigned to it and \<open>r3\<close> the value switched on. They differ when an interrupt is
  taken between two reads; \<open>TestButtons_body\<close> is the case where all three are the
  current \<open>edge_capture\<close>.
\<close>

definition TestButtons_body_reads :: "32 word \<Rightarrow> 32 word \<Rightarrow> 32 word \<Rightarrow> machine \<Rightarrow> machine" where
  "TestButtons_body_reads r1 r2 r3 st =
     (if last_tested st = r1 then st
      else
        let st1 = st\<lparr>last_tested := r2\<rparr> in
        if r3 = 0x1 then
          (if buttons_tested st1 AND 0x1 \<noteq> 0 then st1
           else (printf msg_button1 st1)\<lparr>buttons_tested := buttons_tested st1 OR 0x1\<rparr>)
        else if r3 = 0x2 then
          (if buttons_tested st1 AND 0x2 \<noteq> 0 then st1
           else (printf msg_button2 st1)\<lparr>buttons_tested := buttons_tested st1 OR 0x2\<rparr>)
        else if r3 = 0x4 then
          (if buttons_tested st1 AND 0x4 \<noteq> 0 then st1
           else (printf msg_button3 st1)\<lparr>buttons_tested := buttons_tested st1 OR 0x4\<rparr>)
        else if r3 = 0x8 then
          (if buttons_tested st1 AND 0x8 \<noteq> 0 then st1
           else (printf msg_button4 st1)\<lparr>buttons_tested := buttons_tested st1 OR 0x8\<rparr>)
        else st1)"

text \<open>
  The edge events taken during one iteration of the loop, by the place where the
  interrupt handler runs: before the comparison of line 511, between the comparison
  and the assignment of line 517, and between the assignment and the \<open>switch\<close> of
  line 518. An edge taken anywhere else in the loop (before the loop test, inside or
  after the \<open>switch\<close>) is seen first by the next comparison, so it counts as taken
  before the comparison of the next iteration.
\<close>

type_synonym arrivals = "32 word list \<times> 32 word list \<times> 32 word list"

text \<open>
  One iteration of the loop with its interrupts. Each read of \<open>edge_capture\<close> returns
  the value the store has at its own place: \<open>r1\<close> after the first edges, \<open>r2\<close> after the
  second, \<open>r3\<close> after the third. The handler writes only \<open>edge_capture\<close> and the
  edge-capture register, and the body writes only \<open>last_tested\<close>, \<open>buttons_tested\<close> and
  the output, so the writes of the body are applied to the state left by the last
  edges. When the comparison ends the iteration (\<open>continue\<close> at line 513), the edges
  listed for the later places are taken before the next iteration begins.
\<close>

definition TestButtons_iteration :: "arrivals \<Rightarrow> machine \<Rightarrow> machine" where
  "TestButtons_iteration a st =
     (case a of (vs1, vs2, vs3) \<Rightarrow>
        let st1 = button_edges vs1 st; r1 = edge_capture st1;
            st2 = button_edges vs2 st1; r2 = edge_capture st2;
            st3 = button_edges vs3 st2; r3 = edge_capture st3
        in TestButtons_body_reads r1 r2 r3 st3)"



text \<open>
  The state after the first iterations of the same loop, one per element of the
  schedule (fewer when the loop exits earlier): what the polling loop has done
  once these events have been delivered.
\<close>

fun TestButtons_polls :: "arrivals list \<Rightarrow> machine \<Rightarrow> machine" where
  "TestButtons_polls [] st = st"
| "TestButtons_polls (a # sched) st =
     (if buttons_tested st \<noteq> all_tested st
      then TestButtons_polls sched (TestButtons_iteration a st)
      else st)"


subsection \<open>Vocabulary of the properties\<close>

text \<open>
  The four single-bit events of the four lines, and the message that
  \<open>TestButtons\<close> prints in the \<open>case\<close> of each.
\<close>

definition button_lines :: "32 word set" where
  "button_lines = {0x1, 0x2, 0x4, 0x8}"

definition line_msg :: "32 word \<Rightarrow> string" where
  "line_msg v =
     (if v = 0x1 then msg_button1
      else if v = 0x2 then msg_button2
      else if v = 0x4 then msg_button3
      else msg_button4)"

text \<open>The mask with the bit of every line of a set of single-bit events.\<close>

definition mask_of :: "32 word set \<Rightarrow> 8 word" where
  "mask_of S =
     (if 0x1 \<in> S then 0x1 else 0) OR (if 0x2 \<in> S then 0x2 else 0)
     OR (if 0x4 \<in> S then 0x4 else 0) OR (if 0x8 \<in> S then 0x8 else 0)"

text \<open>
  The lifecycle state while the test runs: handler registered on the store, all
  four interrupts enabled, edge-capture register clear, completion set 0xf.
\<close>

definition armed :: "machine \<Rightarrow> bool" where
  "armed st \<longleftrightarrow> button_isr st = Some Addr_edge_capture \<and> pio_irq_mask st = 0xf
     \<and> pio_edge_cap st = 0 \<and> all_tested st = 0xf"

text \<open>The first occurrence of every element of a list, in order of appearance.\<close>

definition firsts :: "'a list \<Rightarrow> 'a list" where
  "firsts xs = rev (remdups (rev xs))"

text \<open>
  One event before each poll: the schedule that delivers a list of events one by one,
  each taken before the comparison of an iteration and none inside an iteration.
\<close>

definition one_by_one :: "32 word list \<Rightarrow> arrivals list" where
  "one_by_one es = map (\<lambda>e. ([e], [], [])) es"


text \<open>A concrete machine before the test: registers and variables zero, nothing printed.\<close>

definition machine0 :: machine where
  "machine0 = \<lparr>pio_irq_mask = 0, pio_edge_cap = 0, button_isr = None, edge_capture = 0,
                buttons_tested = 0, all_tested = 0, last_tested = 0, stdout = []\<rparr>"

section \<open>GetInputString\<close>

text \<open>
  \<open>getc\<close> returns the next byte of the stream as an \<open>unsigned char\<close> converted
  to \<open>int\<close>, or \<open>EOF\<close> (-1).
\<close>

datatype getc_result = Byte "8 word" | EOF

fun getc_value :: "getc_result \<Rightarrow> int" where
  "getc_value (Byte b) = uint b"
| "getc_value EOF = - 1"

text \<open>
  The ways a call can end: it returns, leaving the buffer, the final \<open>i\<close> and the
  rest of the stream; it writes outside the array \<open>entry\<close>; or \<open>getc\<close> never
  delivers another result and the call waits forever (the buffer and \<open>i\<close> are those
  reached by then).
\<close>

datatype outcome =
    Returned "8 word list" nat "getc_result list"
  | Out_of_bounds
  | Blocked "8 word list" nat

text \<open>
  The \<open>for\<close> loop. The stream is the list of results that successive calls of
  \<open>getc\<close> deliver. \<open>ch\<close> is an \<open>int\<close>; \<open>i\<close> starts at 0 and only grows, so it
  is a natural number compared with the \<open>int size\<close> (here \<open>sz\<close>); the assignment
  \<open>entry[i] = ch\<close> converts \<open>ch\<close> to a character.
\<close>

fun GetInputString_loop :: "getc_result list \<Rightarrow> int \<Rightarrow> nat \<Rightarrow> int \<Rightarrow> 8 word list \<Rightarrow> outcome" where
  "GetInputString_loop [] ch i sz entry =
     (if ch \<noteq> 10 \<and> int i < sz then Blocked entry i else Returned entry i [])"
| "GetInputString_loop (r # stream) ch i sz entry =
     (if ch \<noteq> 10 \<and> int i < sz
      then (let ch' = getc_value r in
            if ch' \<noteq> 13
            then (if i < length entry
                  then GetInputString_loop stream ch' (i + 1) sz (entry[i := word_of_int ch'])
                  else Out_of_bounds)
            else GetInputString_loop stream ch' i sz entry)
      else Returned entry i (r # stream))"

definition GetInputString :: "8 word list \<Rightarrow> int \<Rightarrow> getc_result list \<Rightarrow> outcome" where
  "GetInputString entry sz stream = GetInputString_loop stream 0 0 sz entry"

text \<open>
  The characters that a run of the loop stores for the results it has read: every
  result but the carriage returns, converted as the assignment \<open>entry[i] = ch\<close> does.
\<close>

definition kept :: "getc_result list \<Rightarrow> 8 word list" where
  "kept rs = map (\<lambda>r. word_of_int (getc_value r)) (filter (\<lambda>r. getc_value r \<noteq> 13) rs)"

section \<open>Facts about the model\<close>

subsection \<open>Handler, lifecycle and loop body\<close>

lemma TestButtons_arm_fields:
  "edge_capture (TestButtons_arm st) = 0"
  "buttons_tested (TestButtons_arm st) = 0"
  "all_tested (TestButtons_arm st) = 0xf"
  "last_tested (TestButtons_arm st) = 0xffff"
  "pio_irq_mask (TestButtons_arm st) = 0xf"
  "pio_edge_cap (TestButtons_arm st) = 0"
  "button_isr (TestButtons_arm st) = Some Addr_edge_capture"
  "stdout (TestButtons_arm st) = stdout st @ [msg_intro, msg_note]"
  by (simp_all add: TestButtons_arm_def init_button_pio_def printf_def alt_irq_register_def
      IOWR_ALTERA_AVALON_PIO_IRQ_MASK_def IOWR_ALTERA_AVALON_PIO_EDGE_CAP_def)

text \<open>
  The handler and the dispatch of an edge event, in closed form.
\<close>

lemma handle_fields:
  "handle_button_interrupts context st = st\<lparr>edge_capture := pio_edge_cap st, pio_edge_cap := 0\<rparr>"
  by (cases "context") (simp add: handle_button_interrupts_def IORD_ALTERA_AVALON_PIO_EDGE_CAP_def
      IOWR_ALTERA_AVALON_PIO_EDGE_CAP_def Let_def)

lemma button_edge_eq:
  "button_edge v st =
     (if (pio_edge_cap st OR v) AND pio_irq_mask st \<noteq> 0 \<and> button_isr st \<noteq> None
      then st\<lparr>edge_capture := pio_edge_cap st OR v, pio_edge_cap := 0\<rparr>
      else st\<lparr>pio_edge_cap := pio_edge_cap st OR v\<rparr>)"
  by (cases "button_isr st") (simp_all add: button_edge_def handle_fields Let_def)

lemma button_edge_armed:
  "button_isr st = Some Addr_edge_capture \<Longrightarrow> pio_edge_cap st = 0 \<Longrightarrow> v AND pio_irq_mask st \<noteq> 0
   \<Longrightarrow> button_edge v st = st\<lparr>edge_capture := v, pio_edge_cap := 0\<rparr>"
  by (simp add: button_edge_def handle_fields Let_def)

lemma button_edge_frame:
  "buttons_tested (button_edge v st) = buttons_tested st"
  "all_tested (button_edge v st) = all_tested st"
  "last_tested (button_edge v st) = last_tested st"
  "stdout (button_edge v st) = stdout st"
  "button_isr (button_edge v st) = button_isr st"
  "pio_irq_mask (button_edge v st) = pio_irq_mask st"
  by (simp_all add: button_edge_eq)

lemma button_edges_frame:
  "buttons_tested (button_edges vs st) = buttons_tested st"
  "all_tested (button_edges vs st) = all_tested st"
  "last_tested (button_edges vs st) = last_tested st"
  "stdout (button_edges vs st) = stdout st"
  by (induction vs arbitrary: st) (simp_all add: button_edge_frame)

lemma body_all_tested: "all_tested (TestButtons_body st) = all_tested st"
  by (simp add: TestButtons_body_def printf_def Let_def)

lemma body_superset: "buttons_tested (TestButtons_body st) AND buttons_tested st = buttons_tested st"
  by (simp add: TestButtons_body_def printf_def Let_def and.commute)

lemma body_reads_same:
  "TestButtons_body st
     = TestButtons_body_reads (edge_capture st) (edge_capture st) (edge_capture st) st"
  by (simp add: TestButtons_body_def TestButtons_body_reads_def Let_def)

lemma body_reads_superset:
  "buttons_tested (TestButtons_body_reads r1 r2 r3 st) AND buttons_tested st = buttons_tested st"
  by (simp add: TestButtons_body_reads_def printf_def Let_def and.commute)

lemma body_complete:
  "buttons_tested st = 0xf \<Longrightarrow> buttons_tested (TestButtons_body st) = 0xf"
  by (simp add: TestButtons_body_def printf_def Let_def)

lemma body_idle: "last_tested st = edge_capture st \<Longrightarrow> TestButtons_body st = st"
  by (simp add: TestButtons_body_def)

lemma body_frame:
  "pio_edge_cap (TestButtons_body s) = pio_edge_cap s"
  "pio_irq_mask (TestButtons_body s) = pio_irq_mask s"
  "button_isr (TestButtons_body s) = button_isr s"
  "edge_capture (TestButtons_body s) = edge_capture s"
  "last_tested (TestButtons_body s) = edge_capture s"
  by (simp_all add: TestButtons_body_def printf_def Let_def)

text \<open>
  An iteration without interrupt inside it is the loop body on the state left by the
  edges taken before it. An iteration whose comparison finds no new value changes only
  what its interrupts change. Interrupts never touch the variables of the loop.
\<close>

lemma iteration_simple:
  "TestButtons_iteration (vs, [], []) st = TestButtons_body (button_edges vs st)"
  by (simp add: TestButtons_iteration_def body_reads_same Let_def)

lemma iteration_continue:
  "last_tested st = edge_capture (button_edges vs1 st) \<Longrightarrow>
   TestButtons_iteration (vs1, vs2, vs3) st = button_edges vs3 (button_edges vs2 (button_edges vs1 st))"
  by (simp add: TestButtons_iteration_def TestButtons_body_reads_def Let_def button_edges_frame)

lemma button_edges_last_tested:
  "button_edges vs (st\<lparr>last_tested := x\<rparr>) = (button_edges vs st)\<lparr>last_tested := x\<rparr>"
proof (induction vs arbitrary: st)
  case Nil
  show ?case by simp
next
  case (Cons v vs)
  have "button_edge v (st\<lparr>last_tested := x\<rparr>) = (button_edge v st)\<lparr>last_tested := x\<rparr>"
    by (simp add: button_edge_eq)
  with Cons show ?case by simp
qed

lemma iteration_assigned:
  "last_tested st \<noteq> edge_capture (button_edges vs1 st) \<Longrightarrow>
   last_tested (TestButtons_iteration (vs1, vs2, vs3) st)
     = edge_capture (button_edges vs2 (button_edges vs1 st))"
  by (simp add: TestButtons_iteration_def TestButtons_body_reads_def printf_def Let_def
      button_edges_frame)

lemma iteration_superset:
  "buttons_tested (TestButtons_iteration a st) AND buttons_tested st = buttons_tested st"
proof (cases a)
  case (fields vs1 vs2 vs3)
  let ?st3 = "button_edges vs3 (button_edges vs2 (button_edges vs1 st))"
  have "buttons_tested ?st3 = buttons_tested st" by (simp add: button_edges_frame)
  with body_reads_superset [of _ _ _ ?st3] show ?thesis
    by (simp add: fields TestButtons_iteration_def Let_def)
qed

lemma iteration_all_tested: "all_tested (TestButtons_iteration a st) = all_tested st"
  by (cases a)
    (simp add: TestButtons_iteration_def TestButtons_body_reads_def printf_def Let_def
      button_edges_frame)


text \<open>
  The bounded loop composes along the schedule, and the loop proper agrees with it:
  running the loop is running a prefix of the schedule and then the loop on the rest.
\<close>

lemma polls_append: "TestButtons_polls (a @ b) st = TestButtons_polls b (TestButtons_polls a st)"
proof (induction a arbitrary: st)
  case Nil
  then show ?case by simp
next
  case (Cons vs a)
  show ?case
  proof (cases "buttons_tested st = all_tested st")
    case True
    then show ?thesis by (cases b) simp_all
  next
    case False
    then show ?thesis using Cons by simp
  qed
qed






text \<open>
  Iterations without event change nothing once \<open>last_tested\<close> holds the value of
  the store: the loop may spin any number of times between two events, and a loop
  that is not complete and receives no further event never returns.
\<close>

lemma polls_idle_fix:
  "last_tested s = edge_capture s \<Longrightarrow> TestButtons_polls (replicate n ([], [], [])) s = s"
proof (induction n)
  case 0
  show ?case by simp
next
  case (Suc n)
  then have "TestButtons_iteration ([], [], []) s = s"
    by (simp add: iteration_simple body_idle)
  with Suc show ?case by simp
qed


lemma idle_polls:
  "TestButtons_polls ((vs, [], []) # replicate n ([], [], []) @ sched) s
     = TestButtons_polls ((vs, [], []) # sched) s"
proof (cases "buttons_tested s = all_tested s")
  case True
  then show ?thesis by simp
next
  case False
  let ?t = "TestButtons_iteration (vs, [], []) s"
  have "last_tested ?t = edge_capture ?t" by (simp add: iteration_simple body_frame)
  then have "TestButtons_polls (replicate n ([], [], [])) ?t = ?t" by (rule polls_idle_fix)
  with False show ?thesis by (simp add: polls_append)
qed

lemma idle_poll:
  "TestButtons_polls ((vs, [], []) # ([], [], []) # sched) s
     = TestButtons_polls ((vs, [], []) # sched) s"
  using idle_polls [of vs 1 sched s] by simp

text \<open>
  Arithmetic of the masks and messages of the four lines.
\<close>

lemma firsts_snoc: "firsts (xs @ [x]) = (if x \<in> set xs then firsts xs else firsts xs @ [x])"
  by (simp add: firsts_def)

lemma mask_of_insert: "e \<in> button_lines \<Longrightarrow> mask_of (insert e S) = mask_of S OR ucast e"
  by (auto simp add: mask_of_def button_lines_def)

lemma mask_of_bit: "e \<in> button_lines \<Longrightarrow> (mask_of S AND ucast e \<noteq> 0) = (e \<in> S)"
  by (auto simp add: mask_of_def button_lines_def)

lemma mask_of_full: "(mask_of S = 0xf) = (button_lines \<subseteq> S)"
  by (simp add: mask_of_def button_lines_def)

lemma line_msg_simps:
  "line_msg 1 = msg_button1" "line_msg 2 = msg_button2"
  "line_msg 4 = msg_button3" "line_msg 8 = msg_button4"
  by (simp_all add: line_msg_def)

text \<open>
  The loop body when the value polled is the event of one line.
\<close>

lemma body_line:
  assumes "edge_capture st \<in> button_lines"
  shows "TestButtons_body st =
     (if last_tested st = edge_capture st then st
      else if buttons_tested st AND ucast (edge_capture st) \<noteq> 0
      then st\<lparr>last_tested := edge_capture st\<rparr>
      else st\<lparr>last_tested := edge_capture st,
              buttons_tested := buttons_tested st OR ucast (edge_capture st),
              stdout := stdout st @ [line_msg (edge_capture st)]\<rparr>)"
  using assms
  by (auto simp add: TestButtons_body_def button_lines_def printf_def Let_def line_msg_simps)

lemma line_irq: "e \<in> button_lines \<Longrightarrow> e AND 0xf \<noteq> 0"
  by (auto simp add: button_lines_def)

lemma butlast_open: "\<not> A \<subseteq> set xs \<Longrightarrow> \<not> A \<subseteq> set (butlast xs)"
  by (blast dest: in_set_butlastD)

text \<open>
  Closed form of a run fed with line events, one interrupt before each poll and none
  inside an iteration, as long as no proper prefix of the events covers all four
  lines: the store and \<open>last_tested\<close> hold the last event, \<open>buttons_tested\<close> has the
  bits of the events seen, and the output has one message per line in order of first
  appearance.
\<close>

lemma polls_lines_gen:
  assumes a: "armed a" "buttons_tested a = 0" "last_tested a \<notin> button_lines"
  shows "set xs \<subseteq> button_lines \<Longrightarrow> \<not> button_lines \<subseteq> set (butlast xs) \<Longrightarrow>
     TestButtons_polls (one_by_one xs) a =
       a\<lparr>edge_capture := (if xs = [] then edge_capture a else last xs),
         last_tested := (if xs = [] then last_tested a else last xs),
         buttons_tested := mask_of (set xs),
         stdout := stdout a @ map line_msg (firsts xs)\<rparr>"
proof (induction xs rule: rev_induct)
  case Nil
  show ?case
    by (rule machine.equality) (simp_all add: a one_by_one_def mask_of_def firsts_def)
next
  case (snoc e xs)
  have e: "e \<in> button_lines" and xs: "set xs \<subseteq> button_lines"
    and open_xs: "\<not> button_lines \<subseteq> set xs"
    using snoc.prems by simp_all
  have "\<not> button_lines \<subseteq> set (butlast xs)"
    using open_xs by (rule butlast_open)
  note IH = snoc.IH [OF xs this]
  let ?s = "TestButtons_polls (one_by_one xs) a"
  have running: "buttons_tested ?s \<noteq> all_tested ?s"
    using a(1) open_xs by (simp add: IH armed_def mask_of_full)
  have ne: "last_tested a \<noteq> e" using e a(3) by auto
  have edge: "button_edge e ?s = ?s\<lparr>edge_capture := e, pio_edge_cap := 0\<rparr>"
    using a(1) e by (intro button_edge_armed) (simp_all add: IH armed_def line_irq)
  have "edge_capture (?s\<lparr>edge_capture := e, pio_edge_cap := 0\<rparr>) \<in> button_lines"
    using e by simp
  note b = body_line [OF this]
  have "TestButtons_polls (one_by_one (xs @ [e])) a = TestButtons_body (button_edge e ?s)"
    using running by (simp add: one_by_one_def polls_append iteration_simple)
  also have "\<dots> = a\<lparr>edge_capture := e, last_tested := e,
         buttons_tested := mask_of (set (xs @ [e])),
         stdout := stdout a @ map line_msg (firsts (xs @ [e]))\<rparr>"
  proof (cases "xs \<noteq> [] \<and> last xs = e")
    case True
    then have "e \<in> set xs" by auto
    then show ?thesis
      unfolding edge b using e True
      by (intro machine.equality)
         (use a(1) in \<open>simp_all add: IH armed_def firsts_snoc insert_absorb\<close>)
  next
    case False
    then have lt: "last_tested ?s \<noteq> e" using ne by (auto simp add: IH)
    show ?thesis
    proof (cases "e \<in> set xs")
      case True
      then show ?thesis
        unfolding edge b using e lt
        by (intro machine.equality)
           (use a(1) in \<open>simp_all add: IH armed_def firsts_snoc insert_absorb mask_of_bit\<close>)
    next
      case False
      then show ?thesis
        unfolding edge b using e lt
        by (intro machine.equality)
           (use a(1) in \<open>simp_all add: IH armed_def firsts_snoc mask_of_bit mask_of_insert\<close>)
    qed
  qed
  finally show ?case by simp
qed

lemma armed_arm: "armed (TestButtons_arm st)"
  by (simp add: armed_def TestButtons_arm_fields)

lemma polls_lines:
  assumes "set xs \<subseteq> button_lines" and "\<not> button_lines \<subseteq> set (butlast xs)"
  shows "TestButtons_polls (one_by_one xs) (TestButtons_arm st) =
       (TestButtons_arm st)\<lparr>edge_capture := (if xs = [] then 0 else last xs),
         last_tested := (if xs = [] then 0xffff else last xs),
         buttons_tested := mask_of (set xs),
         stdout := stdout (TestButtons_arm st) @ map line_msg (firsts xs)\<rparr>"
  proof -
  have "last_tested (TestButtons_arm st) \<notin> button_lines"
    by (simp add: TestButtons_arm_fields button_lines_def)
  with armed_arm [of st] assms
  have "TestButtons_polls (one_by_one xs) (TestButtons_arm st) =
       (TestButtons_arm st)\<lparr>
         edge_capture := (if xs = [] then edge_capture (TestButtons_arm st) else last xs),
         last_tested := (if xs = [] then last_tested (TestButtons_arm st) else last xs),
         buttons_tested := mask_of (set xs),
         stdout := stdout (TestButtons_arm st) @ map line_msg (firsts xs)\<rparr>"
    by (intro polls_lines_gen) (simp_all add: TestButtons_arm_fields)
  then show ?thesis by (simp add: TestButtons_arm_fields)
qed











lemma edge_twice:
  assumes "pio_edge_cap st = 0"
  shows "button_edge v (TestButtons_body (button_edge v st)) = TestButtons_body (button_edge v st)"
proof (cases "v AND pio_irq_mask st \<noteq> 0 \<and> button_isr st \<noteq> None")
  case True
  let ?s1 = "TestButtons_body (st\<lparr>edge_capture := v, pio_edge_cap := 0\<rparr>)"
  have e1: "button_edge v st = st\<lparr>edge_capture := v, pio_edge_cap := 0\<rparr>"
    using True assms by (simp add: button_edge_eq)
  have "button_edge v ?s1 = ?s1\<lparr>edge_capture := v, pio_edge_cap := 0\<rparr>"
    using True by (simp add: button_edge_eq body_frame)
  also have "\<dots> = ?s1"
    by (intro machine.equality) (simp_all add: body_frame)
  finally show ?thesis by (simp add: e1)
next
  case False
  let ?s1 = "TestButtons_body (st\<lparr>pio_edge_cap := v\<rparr>)"
  have e1: "button_edge v st = st\<lparr>pio_edge_cap := v\<rparr>"
    using False assms by (auto simp add: button_edge_eq)
  have "button_edge v ?s1 = ?s1\<lparr>pio_edge_cap := v\<rparr>"
    using False by (auto simp add: button_edge_eq body_frame)
  also have "\<dots> = ?s1"
    by (intro machine.equality) (simp_all add: body_frame)
  finally show ?thesis by (simp add: e1)
qed

lemma body_other:
  assumes "edge_capture st \<notin> button_lines"
  shows "buttons_tested (TestButtons_body st) = buttons_tested st"
    and "stdout (TestButtons_body st) = stdout st"
  using assms by (simp_all add: TestButtons_body_def button_lines_def Let_def)

lemma machine0_stdout: "stdout machine0 = []"
  by (simp add: machine0_def)

lemma edges_unregistered:
  "button_isr s = None \<Longrightarrow> edge_capture (button_edges vs s) = edge_capture s"
proof (induction vs arbitrary: s)
  case Nil
  show ?case by simp
next
  case (Cons v vs)
  have "button_isr (button_edge v s) = None" "edge_capture (button_edge v s) = edge_capture s"
    using Cons.prems by (simp_all add: button_edge_eq)
  with Cons.IH show ?case by simp
qed

text \<open>
  One loop body either leaves \<open>buttons_tested\<close> and the output alone, or adds the bit
  of one line that was not set and prints the message of that line. Hence, along any
  run, the message of a line is in the output once if its bit is set and not at all
  otherwise.
\<close>

lemma body_step:
  "buttons_tested (TestButtons_body s) = buttons_tested s \<and> stdout (TestButtons_body s) = stdout s
   \<or> (\<exists>e \<in> button_lines. buttons_tested s AND ucast e = 0
         \<and> buttons_tested (TestButtons_body s) = buttons_tested s OR ucast e
         \<and> stdout (TestButtons_body s) = stdout s @ [line_msg e])"
proof (cases "edge_capture s \<in> button_lines")
  case True
  then show ?thesis by (auto simp add: body_line)
next
  case False
  then show ?thesis by (simp add: body_other)
qed






subsection \<open>The input line reader\<close>

text \<open>
  Conversion of the results of \<open>getc\<close> to characters: a stored character is a
  newline or a carriage return exactly when the result read was one.
\<close>

lemma kept_simps:
  "kept [] = []"
  "kept (r # rs) = (if getc_value r \<noteq> 13 then word_of_int (getc_value r) # kept rs else kept rs)"
  by (simp_all add: kept_def)

lemma conv_LF: "(word_of_int (getc_value r) = (10 :: 8 word)) = (getc_value r = 10)"
proof (cases r)
  case (Byte b)
  have "(b = 10) = (uint b = 10)" by (simp add: word_uint_eq_iff)
  then show ?thesis by (simp add: Byte)
next
  case EOF
  then show ?thesis by simp
qed

lemma conv_CR: "(word_of_int (getc_value r) = (13 :: 8 word)) = (getc_value r = 13)"
proof (cases r)
  case (Byte b)
  have "(b = 13) = (uint b = 13)" by (simp add: word_uint_eq_iff)
  then show ?thesis by (simp add: Byte)
next
  case EOF
  then show ?thesis by simp
qed

lemma kept_no_CR: "13 \<notin> set (kept rs)"
  by (induction rs) (simp_all add: kept_simps conv_CR)

lemma kept_LF: "(10 \<in> set (kept rs)) = (\<exists>r \<in> set rs. getc_value r = 10)"
  by (induction rs) (auto simp add: kept_simps conv_LF)

text \<open>
  What the loop has done by the time it ends, for each of the three ways to end,
  started at index \<open>i\<close> with last character \<open>ch\<close>: the array is the old one with the
  kept characters written from index \<open>i\<close> on.
\<close>

lemma loop_Returned:
  "GetInputString_loop stream ch i sz entry = Returned e n rest \<Longrightarrow> i \<le> length entry \<Longrightarrow>
   \<exists>used. stream = used @ rest
      \<and> e = take i entry @ kept used @ drop n entry
      \<and> n = i + length (kept used) \<and> n \<le> length entry
      \<and> (used \<noteq> [] \<longrightarrow> ch \<noteq> 10 \<and> int n \<le> sz)
      \<and> ((if used = [] then ch else getc_value (last used)) = 10 \<or> sz \<le> int n)
      \<and> (\<forall>r \<in> set (butlast used). getc_value r \<noteq> 10)"
proof (induction stream arbitrary: ch i entry)
  case Nil
  then show ?case by (auto simp add: kept_simps split: if_splits)
next
  case (Cons r stream)
  show ?case
  proof (cases "ch \<noteq> 10 \<and> int i < sz")
    case False
    with Cons.prems show ?thesis by (intro exI [of _ "[]"]) (auto simp add: kept_simps)
  next
    case run: True
    show ?thesis
    proof (cases "getc_value r \<noteq> 13")
      case True
      with run Cons.prems have i: "i < length entry"
        by (auto simp add: Let_def split: if_splits)
      let ?entry = "entry[i := word_of_int (getc_value r)]"
      from True run Cons.prems i
      have eq: "GetInputString_loop stream (getc_value r) (i + 1) sz ?entry = Returned e n rest"
        by (simp add: Let_def)
      have le: "i + 1 \<le> length ?entry" using i by simp
      from Cons.IH [OF eq le] obtain used where
        u: "stream = used @ rest"
        "e = take (i + 1) ?entry @ kept used @ drop n ?entry"
        "n = i + 1 + length (kept used)" "n \<le> length ?entry"
        "used \<noteq> [] \<longrightarrow> getc_value r \<noteq> 10 \<and> int n \<le> sz"
        "(if used = [] then getc_value r else getc_value (last used)) = 10 \<or> sz \<le> int n"
        "\<forall>r \<in> set (butlast used). getc_value r \<noteq> 10"
        by (elim exE conjE) blast
      have t: "take (i + 1) ?entry = take i entry @ [word_of_int (getc_value r)]"
        using i by (simp add: take_Suc_conv_app_nth)
      have d: "drop n ?entry = drop n entry"
        using u(3) by simp
      show ?thesis
        using u True run unfolding t d
        by (intro exI [of _ "r # used"]) (auto simp add: kept_simps)
    next
      case False
      with run Cons.prems
      have "GetInputString_loop stream (getc_value r) i sz entry = Returned e n rest"
        by (simp add: Let_def)
      from Cons.IH [OF this Cons.prems(2)] obtain used where
        u: "stream = used @ rest"
        "e = take i entry @ kept used @ drop n entry"
        "n = i + length (kept used)" "n \<le> length entry"
        "used \<noteq> [] \<longrightarrow> getc_value r \<noteq> 10 \<and> int n \<le> sz"
        "(if used = [] then getc_value r else getc_value (last used)) = 10 \<or> sz \<le> int n"
        "\<forall>r \<in> set (butlast used). getc_value r \<noteq> 10"
        by (elim exE conjE) blast
      show ?thesis
        using u False run
        by (intro exI [of _ "r # used"]) (auto simp add: kept_simps)
    qed
  qed
qed

lemma loop_Blocked:
  "GetInputString_loop stream ch i sz entry = Blocked e n \<Longrightarrow> i \<le> length entry \<Longrightarrow>
   e = take i entry @ kept stream @ drop n entry
      \<and> n = i + length (kept stream) \<and> n \<le> length entry
      \<and> ch \<noteq> 10 \<and> int n < sz
      \<and> (\<forall>r \<in> set stream. getc_value r \<noteq> 10)"
proof (induction stream arbitrary: ch i entry)
  case Nil
  then show ?case by (auto simp add: kept_simps split: if_splits)
next
  case (Cons r stream)
  from Cons.prems have run: "ch \<noteq> 10" "int i < sz"
    by (auto split: if_splits)
  show ?case
  proof (cases "getc_value r \<noteq> 13")
    case True
    with run Cons.prems have i: "i < length entry"
      by (auto simp add: Let_def split: if_splits)
    let ?entry = "entry[i := word_of_int (getc_value r)]"
    from True run Cons.prems i
    have "GetInputString_loop stream (getc_value r) (i + 1) sz ?entry = Blocked e n"
      by (simp add: Let_def)
    from Cons.IH [OF this] i have
      u: "e = take (i + 1) ?entry @ kept stream @ drop n ?entry"
      "n = i + 1 + length (kept stream)" "n \<le> length entry"
      "getc_value r \<noteq> 10" "int n < sz"
      "\<forall>r \<in> set stream. getc_value r \<noteq> 10"
      by auto
    have t: "take (i + 1) ?entry = take i entry @ [word_of_int (getc_value r)]"
      using i by (simp add: take_Suc_conv_app_nth)
    have d: "drop n ?entry = drop n entry"
      using u(2) by simp
    show ?thesis
      using u True run unfolding t d by (auto simp add: kept_simps)
  next
    case False
    with run Cons.prems
    have "GetInputString_loop stream (getc_value r) i sz entry = Blocked e n"
      by (simp add: Let_def)
    from Cons.IH [OF this Cons.prems(2)] False run show ?thesis
      by (auto simp add: kept_simps)
  qed
qed

lemma loop_Out_of_bounds:
  "GetInputString_loop stream ch i sz entry = Out_of_bounds \<Longrightarrow> i \<le> length entry \<Longrightarrow>
   int (length entry) < sz"
proof (induction stream arbitrary: ch i entry)
  case Nil
  then show ?case by (auto simp add: kept_simps split: if_splits)
next
  case (Cons r stream)
  from Cons.prems have run: "ch \<noteq> 10" "int i < sz"
    by (auto split: if_splits)
  show ?case
  proof (cases "getc_value r \<noteq> 13")
    case True
    show ?thesis
    proof (cases "i < length entry")
      case i: True
      let ?entry = "entry[i := word_of_int (getc_value r)]"
      from True run Cons.prems i
      have "GetInputString_loop stream (getc_value r) (i + 1) sz ?entry = Out_of_bounds"
        by (simp add: Let_def)
      from Cons.IH [OF this] i show ?thesis by simp
    next
      case False
      with Cons.prems(2) run show ?thesis by simp
    qed
  next
    case False
    with run Cons.prems
    have "GetInputString_loop stream (getc_value r) i sz entry = Out_of_bounds"
      by (simp add: Let_def)
    from Cons.IH [OF this Cons.prems(2)] show ?thesis .
  qed
qed

lemma kept_append: "kept (a @ b) = kept a @ kept b"
  by (simp add: kept_def)

lemma kept_butlast_no_LF:
  assumes "\<forall>r \<in> set (butlast used). getc_value r \<noteq> 10"
  shows "10 \<notin> set (take (length (kept used) - 1) (kept used))"
proof (cases "used = []")
  case True
  then show ?thesis by (simp add: kept_simps)
next
  case False
  then have split: "kept used = kept (butlast used) @ kept [last used]"
    by (simp add: kept_append [symmetric])
  have clean: "10 \<notin> set (kept (butlast used))"
    using assms by (simp add: kept_LF)
  show ?thesis
  proof (cases "getc_value (last used) \<noteq> 13")
    case True
    then have "take (length (kept used) - 1) (kept used) = kept (butlast used)"
      by (simp add: split kept_simps)
    with clean show ?thesis by simp
  next
    case False
    then have "kept used = kept (butlast used)"
      by (simp add: split kept_simps)
    with clean set_take_subset [of "length (kept used) - 1" "kept used"]
    show ?thesis by auto
  qed
qed

lemma kept_last_LF:
  assumes "used \<noteq> []" and "getc_value (last used) = 10"
  shows "0 < length (kept used) \<and> kept used ! (length (kept used) - 1) = 10"
proof -
  from assms(1) have "kept used = kept (butlast used) @ kept [last used]"
    by (simp add: kept_append [symmetric])
  with assms(2) have "kept used = kept (butlast used) @ [10]"
    by (simp add: kept_simps)
  then show ?thesis by simp
qed

section \<open>Lifecycle and interrupt handler\<close>

text \<open>
  C8. After arming and before the first poll: the Edge Capture Store (\<open>edge_capture\<close>)
  is zero, TestedMask (\<open>buttons_tested\<close>) is zero, LastObservedValue (\<open>last_tested\<close>) is
  the sentinel 0xffff, which lies above every four-line bitmask (0 to 0xf), the
  interrupt mask is 0xf with the handler registered on the store, and the hardware
  edge-capture register is cleared.
\<close>

theorem arm_postcondition:
  "edge_capture (TestButtons_arm st) = 0
   \<and> buttons_tested (TestButtons_arm st) = 0
   \<and> last_tested (TestButtons_arm st) = 0xffff
   \<and> 0xf < last_tested (TestButtons_arm st)
   \<and> last_tested (TestButtons_arm st) AND 0xf \<noteq> last_tested (TestButtons_arm st)
   \<and> pio_irq_mask (TestButtons_arm st) = 0xf
   \<and> pio_edge_cap (TestButtons_arm st) = 0
   \<and> button_isr (TestButtons_arm st) = Some Addr_edge_capture
   \<and> all_tested (TestButtons_arm st) = 0xf"
  by (simp add: TestButtons_arm_fields)

text \<open>
  C9. The interrupt handler stores the edge-capture register in \<open>edge_capture\<close>,
  leaves the register zero, and changes nothing else: \<open>buttons_tested\<close>,
  \<open>last_tested\<close>, \<open>all_tested\<close>, the interrupt mask, the registration and the output
  are as before.
\<close>

theorem handler_frame:
  "edge_capture (handle_button_interrupts Addr_edge_capture st) = pio_edge_cap st
   \<and> pio_edge_cap (handle_button_interrupts Addr_edge_capture st) = 0
   \<and> buttons_tested (handle_button_interrupts Addr_edge_capture st) = buttons_tested st
   \<and> last_tested (handle_button_interrupts Addr_edge_capture st) = last_tested st
   \<and> all_tested (handle_button_interrupts Addr_edge_capture st) = all_tested st
   \<and> pio_irq_mask (handle_button_interrupts Addr_edge_capture st) = pio_irq_mask st
   \<and> button_isr (handle_button_interrupts Addr_edge_capture st) = button_isr st
   \<and> stdout (handle_button_interrupts Addr_edge_capture st) = stdout st
   \<and> handle_button_interrupts Addr_edge_capture st
       = st\<lparr>edge_capture := pio_edge_cap st, pio_edge_cap := 0\<rparr>"
  by (simp add: handle_fields)

text \<open>
  C2, as stated, fails: the handler has no check of an armed or registered condition.
  After \<open>disable_button_pio\<close>, with an edge of line 3 latched in the register, an
  invocation of the handler overwrites \<open>edge_capture\<close>.
\<close>

theorem late_interrupt_counterexample:
  "edge_capture (handle_button_interrupts Addr_edge_capture
       (button_edge 4 (disable_button_pio (TestButtons_arm machine0))))
     \<noteq> edge_capture (button_edge 4 (disable_button_pio (TestButtons_arm machine0)))"
  by (simp add: handle_fields button_edge_eq disable_button_pio_def alt_irq_register_def
      IOWR_ALTERA_AVALON_PIO_IRQ_MASK_def TestButtons_arm_fields)

text \<open>
  C2, amended. After \<open>disable_button_pio\<close> the interrupt mask is zero and no handler is
  registered, so later edges raise no invocation and leave \<open>edge_capture\<close> unchanged.
  The handler itself is unguarded: whenever it is invoked it overwrites
  \<open>edge_capture\<close> with the edge-capture register. The next run starts from
  \<open>edge_capture = 0\<close> all the same, because arming resets it.
\<close>

theorem teardown:
  "pio_irq_mask (disable_button_pio st) = 0
   \<and> button_isr (disable_button_pio st) = None
   \<and> edge_capture (button_edges vs (disable_button_pio st)) = edge_capture st
   \<and> edge_capture (handle_button_interrupts Addr_edge_capture st) = pio_edge_cap st
   \<and> edge_capture (TestButtons_arm (handle_button_interrupts Addr_edge_capture st)) = 0"
proof -
  have d: "pio_irq_mask (disable_button_pio st) = 0" "button_isr (disable_button_pio st) = None"
    "edge_capture (disable_button_pio st) = edge_capture st"
    by (simp_all add: disable_button_pio_def alt_irq_register_def IOWR_ALTERA_AVALON_PIO_IRQ_MASK_def)
  from edges_unregistered [OF d(2), of vs] d show ?thesis
    by (simp add: handle_fields TestButtons_arm_fields)
qed

section \<open>The polling loop\<close>

text \<open>
  C7. \<open>buttons_tested\<close> only grows: after one loop body (also when an interrupt
  changes the value between the reads of the body), after any interrupts, after
  interrupts followed by a loop body, after one iteration with interrupts at any of
  its places, and after any number of loop iterations, every bit that was set is
  still set (the new mask AND the old one is the old one).
\<close>

theorem tested_mask_monotone:
  "buttons_tested (TestButtons_body st) AND buttons_tested st = buttons_tested st
   \<and> buttons_tested (TestButtons_body_reads r1 r2 r3 st) AND buttons_tested st = buttons_tested st
   \<and> buttons_tested (button_edges vs st) = buttons_tested st
   \<and> buttons_tested (TestButtons_body (button_edges vs st)) AND buttons_tested st = buttons_tested st
   \<and> buttons_tested (TestButtons_iteration a st) AND buttons_tested st = buttons_tested st
   \<and> buttons_tested (TestButtons_polls sched st) AND buttons_tested st = buttons_tested st"
proof (intro conjI)
  show "buttons_tested (TestButtons_polls sched st) AND buttons_tested st = buttons_tested st"
  proof (induction sched arbitrary: st)
    case Nil
    show ?case by simp
  next
    case (Cons a sched)
    let ?t = "TestButtons_iteration a st"
    have step: "buttons_tested ?t AND buttons_tested st = buttons_tested st"
      by (rule iteration_superset)
    have "buttons_tested (TestButtons_polls sched ?t) AND buttons_tested st
        = buttons_tested (TestButtons_polls sched ?t) AND (buttons_tested ?t AND buttons_tested st)"
      by (simp add: step)
    also have "\<dots> = (buttons_tested (TestButtons_polls sched ?t) AND buttons_tested ?t) AND buttons_tested st"
      by (simp add: and.assoc)
    also have "\<dots> = buttons_tested ?t AND buttons_tested st"
      by (simp add: Cons.IH)
    finally show ?case by (simp add: step)
  qed
qed (use body_superset [of "button_edges vs st"] in
    \<open>simp_all add: body_superset body_reads_superset iteration_superset button_edges_frame\<close>)

text \<open>
  C4. A poll that reads the value already in \<open>last_tested\<close> changes nothing. When
  the edge-capture register is clear, delivering the same value a second time, with
  nothing in between, leaves the state exactly as after the first delivery. From the
  freshly armed state, a line event delivered twice in a row prints one message.
\<close>

theorem unchanged_value_suppressed:
  "(last_tested st = edge_capture st \<longrightarrow> TestButtons_body st = st)
   \<and> (pio_edge_cap st = 0 \<longrightarrow>
        TestButtons_body (button_edge v (TestButtons_body (button_edge v st)))
          = TestButtons_body (button_edge v st)
        \<and> TestButtons_polls (one_by_one [v, v]) st = TestButtons_polls (one_by_one [v]) st)
   \<and> (v \<in> button_lines \<longrightarrow>
        stdout (TestButtons_polls (one_by_one [v]) (TestButtons_arm st0)) = stdout (TestButtons_arm st0) @ [line_msg v]
        \<and> stdout (TestButtons_polls (one_by_one [v, v]) (TestButtons_arm st0))
            = stdout (TestButtons_arm st0) @ [line_msg v])"
proof (intro conjI impI)
  assume "last_tested st = edge_capture st"
  then show "TestButtons_body st = st" by (rule body_idle)
next
  assume cap: "pio_edge_cap st = 0"
  show twice: "TestButtons_body (button_edge v (TestButtons_body (button_edge v st)))
          = TestButtons_body (button_edge v st)"
    by (simp add: edge_twice [OF cap] body_idle body_frame)
  show "TestButtons_polls (one_by_one [v, v]) st = TestButtons_polls (one_by_one [v]) st"
    by (simp add: one_by_one_def iteration_simple twice)
next
  assume v: "v \<in> button_lines"
  have "set [v] \<subseteq> button_lines" "\<not> button_lines \<subseteq> set (butlast [v])"
    using v by (simp_all add: button_lines_def)
  from polls_lines [OF this, of st0]
  show one: "stdout (TestButtons_polls (one_by_one [v]) (TestButtons_arm st0)) = stdout (TestButtons_arm st0) @ [line_msg v]"
    by (simp add: firsts_def)
  have "pio_edge_cap (TestButtons_arm st0) = 0" by (simp add: TestButtons_arm_fields)
  from edge_twice [OF this, of v]
  have "TestButtons_polls (one_by_one [v, v]) (TestButtons_arm st0) = TestButtons_polls (one_by_one [v]) (TestButtons_arm st0)"
    by (simp add: one_by_one_def iteration_simple body_idle body_frame)
  with one show "stdout (TestButtons_polls (one_by_one [v, v]) (TestButtons_arm st0))
            = stdout (TestButtons_arm st0) @ [line_msg v]"
    by simp
qed

theorem unchanged_value_suppressed_witness:
  "last_tested (TestButtons_polls (one_by_one [2]) (TestButtons_arm machine0))
     = edge_capture (TestButtons_polls (one_by_one [2]) (TestButtons_arm machine0))
   \<and> pio_edge_cap (TestButtons_arm machine0) = 0
   \<and> (2 :: 32 word) \<in> button_lines
   \<and> TestButtons_body (TestButtons_polls (one_by_one [2]) (TestButtons_arm machine0))
       = TestButtons_polls (one_by_one [2]) (TestButtons_arm machine0)
   \<and> TestButtons_polls (one_by_one [2, 2]) (TestButtons_arm machine0)
       = TestButtons_polls (one_by_one [2]) (TestButtons_arm machine0)
   \<and> stdout (TestButtons_polls (one_by_one [2, 2]) (TestButtons_arm machine0))
       = stdout (TestButtons_arm machine0) @ [msg_button2]"
proof -
  have h: "last_tested (TestButtons_polls (one_by_one [2]) (TestButtons_arm machine0))
     = edge_capture (TestButtons_polls (one_by_one [2]) (TestButtons_arm machine0))"
    "pio_edge_cap (TestButtons_arm machine0) = 0" "(2 :: 32 word) \<in> button_lines"
    by (simp_all add: one_by_one_def iteration_simple body_frame TestButtons_arm_fields
        button_lines_def)
  from unchanged_value_suppressed [of "TestButtons_polls (one_by_one [2]) (TestButtons_arm machine0)" 2]
    unchanged_value_suppressed [of "TestButtons_arm machine0" 2]
    unchanged_value_suppressed [of _ 2 machine0] h
  show ?thesis by (simp add: line_msg_simps del: TestButtons_polls.simps)
qed

text \<open>
  C5. A poll that sees a value other than 0x1, 0x2, 0x4, 0x8 changes neither
  \<open>buttons_tested\<close> nor the output; a poll that changes \<open>buttons_tested\<close> has seen one
  of these four values and has added exactly its bit. In particular the events 0x3
  and 0 on the freshly armed state print nothing and leave \<open>buttons_tested = 0\<close>.
\<close>

theorem non_single_bit_ignored:
  "(edge_capture st \<notin> button_lines \<longrightarrow>
      buttons_tested (TestButtons_body st) = buttons_tested st
      \<and> stdout (TestButtons_body st) = stdout st)
   \<and> (buttons_tested (TestButtons_body st) \<noteq> buttons_tested st \<longrightarrow>
        edge_capture st \<in> button_lines
        \<and> buttons_tested (TestButtons_body st) = buttons_tested st OR ucast (edge_capture st))
   \<and> buttons_tested (TestButtons_polls (one_by_one [0x3]) (TestButtons_arm st0)) = 0
   \<and> stdout (TestButtons_polls (one_by_one [0x3]) (TestButtons_arm st0)) = stdout (TestButtons_arm st0)
   \<and> buttons_tested (TestButtons_polls (one_by_one [0]) (TestButtons_arm st0)) = 0
   \<and> stdout (TestButtons_polls (one_by_one [0]) (TestButtons_arm st0)) = stdout (TestButtons_arm st0)"
proof (intro conjI impI)
  assume "buttons_tested (TestButtons_body st) \<noteq> buttons_tested st"
  then show l: "edge_capture st \<in> button_lines" using body_other(1) by blast
  assume "buttons_tested (TestButtons_body st) \<noteq> buttons_tested st"
  then show "buttons_tested (TestButtons_body st) = buttons_tested st OR ucast (edge_capture st)"
    using l by (simp add: body_line split: if_splits)
next
  have three: "button_edge 3 (TestButtons_arm st0) = (TestButtons_arm st0)\<lparr>edge_capture := 3, pio_edge_cap := 0\<rparr>"
    by (intro button_edge_armed) (simp_all add: TestButtons_arm_fields)
  have "(3 :: 32 word) \<notin> button_lines" by (simp add: button_lines_def)
  then have n3: "edge_capture (button_edge 3 (TestButtons_arm st0)) \<notin> button_lines"
    by (simp add: three)
  show "buttons_tested (TestButtons_polls (one_by_one [0x3]) (TestButtons_arm st0)) = 0"
    using body_other(1) [OF n3] by (simp add: one_by_one_def iteration_simple TestButtons_arm_fields button_edge_frame)
  show "stdout (TestButtons_polls (one_by_one [0x3]) (TestButtons_arm st0)) = stdout (TestButtons_arm st0)"
    using body_other(2) [OF n3] by (simp add: one_by_one_def iteration_simple TestButtons_arm_fields button_edge_frame)
  have zero: "button_edge 0 (TestButtons_arm st0) = TestButtons_arm st0"
    by (simp add: button_edge_eq TestButtons_arm_fields)
  have "(0 :: 32 word) \<notin> button_lines" by (simp add: button_lines_def)
  then have n0: "edge_capture (TestButtons_arm st0) \<notin> button_lines"
    by (simp add: TestButtons_arm_fields)
  show "buttons_tested (TestButtons_polls (one_by_one [0]) (TestButtons_arm st0)) = 0"
    using body_other(1) [OF n0] by (simp add: one_by_one_def iteration_simple TestButtons_arm_fields zero)
  show "stdout (TestButtons_polls (one_by_one [0]) (TestButtons_arm st0)) = stdout (TestButtons_arm st0)"
    using body_other(2) [OF n0] by (simp add: one_by_one_def iteration_simple TestButtons_arm_fields zero)
qed (simp_all add: body_other)

theorem non_single_bit_ignored_witness:
  "edge_capture (button_edge 3 (TestButtons_arm machine0)) \<notin> button_lines
   \<and> buttons_tested (TestButtons_body (button_edge 3 (TestButtons_arm machine0))) = 0
   \<and> stdout (TestButtons_body (button_edge 3 (TestButtons_arm machine0))) = [msg_intro, msg_note]
   \<and> buttons_tested (TestButtons_body (button_edge 2 (TestButtons_arm machine0)))
        \<noteq> buttons_tested (button_edge 2 (TestButtons_arm machine0))
   \<and> edge_capture (button_edge 2 (TestButtons_arm machine0)) \<in> button_lines"
proof -
  have three: "button_edge 3 (TestButtons_arm machine0)
      = (TestButtons_arm machine0)\<lparr>edge_capture := 3, pio_edge_cap := 0\<rparr>"
    by (intro button_edge_armed) (simp_all add: TestButtons_arm_fields)
  have two: "button_edge 2 (TestButtons_arm machine0)
      = (TestButtons_arm machine0)\<lparr>edge_capture := 2, pio_edge_cap := 0\<rparr>"
    by (intro button_edge_armed) (simp_all add: TestButtons_arm_fields)
  have h3: "edge_capture (button_edge 3 (TestButtons_arm machine0)) \<notin> button_lines"
    by (simp add: three button_lines_def)
  have h2: "buttons_tested (TestButtons_body (button_edge 2 (TestButtons_arm machine0)))
        \<noteq> buttons_tested (button_edge 2 (TestButtons_arm machine0))"
    by (simp add: two TestButtons_body_def TestButtons_arm_fields printf_def)
  from non_single_bit_ignored [of "button_edge 3 (TestButtons_arm machine0)" machine0] h3
  have a: "buttons_tested (TestButtons_body (button_edge 3 (TestButtons_arm machine0)))
             = buttons_tested (button_edge 3 (TestButtons_arm machine0))"
    "stdout (TestButtons_body (button_edge 3 (TestButtons_arm machine0)))
             = stdout (button_edge 3 (TestButtons_arm machine0))"
    by blast+
  from non_single_bit_ignored [of "button_edge 2 (TestButtons_arm machine0)" machine0] h2
  have b: "edge_capture (button_edge 2 (TestButtons_arm machine0)) \<in> button_lines"
    by blast
  have "buttons_tested (button_edge 3 (TestButtons_arm machine0)) = 0"
    "stdout (button_edge 3 (TestButtons_arm machine0)) = [msg_intro, msg_note]"
    by (simp_all add: button_edge_frame TestButtons_arm_fields machine0_stdout)
  with a b h3 h2 show ?thesis by simp
qed








section \<open>Reading an input line\<close>

text \<open>
  C10. For a call with \<open>size\<close> at most the length of the array: no write falls
  outside the array; when the call returns with final index \<open>n\<close>, at most
  \<open>size\<close> characters were stored (\<open>n \<le> max 0 size\<close>), the array is unchanged from
  index \<open>n\<close> on, its first \<open>n\<close> characters are those read up to the return without
  the carriage returns (so none of them is a carriage return), and either \<open>n\<close> has
  reached \<open>size\<close> or the last character stored is a newline, with no newline
  before it. A call that is still waiting for input has respected the same bounds.
  The call returns as soon as the stream delivers a newline or \<open>size\<close> results
  other than carriage returns.
\<close>

theorem GetInputString_bounds:
  assumes "sz \<le> int (length entry)"
  shows "(\<forall>e n rest. GetInputString entry sz stream = Returned e n rest \<longrightarrow>
            length e = length entry \<and> int n \<le> max 0 sz \<and> drop n e = drop n entry
            \<and> (\<exists>used. stream = used @ rest \<and> take n e = kept used)
            \<and> 13 \<notin> set (take n e)
            \<and> (int n = max 0 sz \<or> 0 < n \<and> e ! (n - 1) = 10)
            \<and> 10 \<notin> set (take (n - 1) e))
    \<and> (\<forall>e n. GetInputString entry sz stream = Blocked e n \<longrightarrow>
            length e = length entry \<and> int n < sz \<and> drop n e = drop n entry
            \<and> take n e = kept stream
            \<and> 13 \<notin> set (take n e) \<and> 10 \<notin> set (take n e))
    \<and> GetInputString entry sz stream \<noteq> Out_of_bounds
    \<and> ((\<exists>r \<in> set stream. getc_value r = 10) \<or> sz \<le> int (length (kept stream)) \<longrightarrow>
          (\<exists>e n rest. GetInputString entry sz stream = Returned e n rest))"
proof (intro conjI allI impI)
  fix e n rest
  assume "GetInputString entry sz stream = Returned e n rest"
  then have "GetInputString_loop stream 0 0 sz entry = Returned e n rest"
    by (simp add: GetInputString_def)
  from loop_Returned [OF this] obtain used where
    u: "stream = used @ rest" "e = kept used @ drop n entry"
    "n = length (kept used)" "n \<le> length entry"
    "used \<noteq> [] \<longrightarrow> int n \<le> sz"
    "(if used = [] then 0 else getc_value (last used)) = 10 \<or> sz \<le> int n"
    "\<forall>r \<in> set (butlast used). getc_value r \<noteq> 10"
    by auto
  show "length e = length entry" using u(2,3,4) by simp
  show le: "int n \<le> max 0 sz"
    using u(3,5) by (cases "used = []") (simp_all add: kept_simps)
  show "drop n e = drop n entry" using u(2,3) by simp
  have tk: "take n e = kept used" using u(2,3) by simp
  then show "\<exists>used. stream = used @ rest \<and> take n e = kept used"
    using u(1) by blast
  show "13 \<notin> set (take n e)" by (simp add: tk kept_no_CR)
  show "int n = max 0 sz \<or> 0 < n \<and> e ! (n - 1) = 10"
  proof (cases "sz \<le> int n")
    case True
    with le have "int n = max 0 sz" by (simp add: max_def split: if_splits)
    then show ?thesis by simp
  next
    case False
    with u(6) have "used \<noteq> []" "getc_value (last used) = 10"
      by (auto split: if_splits)
    from kept_last_LF [OF this] have "0 < n" "kept used ! (n - 1) = 10"
      by (simp_all add: u(3))
    then show ?thesis using u(2,3) by (simp add: nth_append)
  qed
  have "take (n - 1) e = take (n - 1) (kept used)"
    using u(2,3) by simp
  with kept_butlast_no_LF [OF u(7)] show "10 \<notin> set (take (n - 1) e)"
    by (simp add: u(3))
next
  fix e n
  assume "GetInputString entry sz stream = Blocked e n"
  then have "GetInputString_loop stream 0 0 sz entry = Blocked e n"
    by (simp add: GetInputString_def)
  from loop_Blocked [OF this] have
    b: "e = kept stream @ drop n entry" "n = length (kept stream)" "n \<le> length entry"
    "int n < sz" "\<forall>r \<in> set stream. getc_value r \<noteq> 10"
    by auto
  show "length e = length entry" using b(1,2,3) by simp
  show "int n < sz" by (rule b(4))
  show "drop n e = drop n entry" using b(1,2) by simp
  show tk: "take n e = kept stream" using b(1,2) by simp
  show "13 \<notin> set (take n e)" by (simp add: tk kept_no_CR)
  show "10 \<notin> set (take n e)" using b(5) by (simp add: tk kept_LF)
next
  show oob: "GetInputString entry sz stream \<noteq> Out_of_bounds"
  proof
    assume "GetInputString entry sz stream = Out_of_bounds"
    then have "GetInputString_loop stream 0 0 sz entry = Out_of_bounds"
      by (simp add: GetInputString_def)
    from loop_Out_of_bounds [OF this] assms show False by simp
  qed
  assume enough: "(\<exists>r \<in> set stream. getc_value r = 10) \<or> sz \<le> int (length (kept stream))"
  show "\<exists>e n rest. GetInputString entry sz stream = Returned e n rest"
  proof (cases "GetInputString entry sz stream")
    case (Returned e n rest)
    then show ?thesis by blast
  next
    case Out_of_bounds
    with oob show ?thesis by simp
  next
    case (Blocked e n)
    then have "GetInputString_loop stream 0 0 sz entry = Blocked e n"
      by (simp add: GetInputString_def)
    from loop_Blocked [OF this] have "n = length (kept stream)" "int n < sz"
      "\<forall>r \<in> set stream. getc_value r \<noteq> 10"
      by auto
    with enough show ?thesis by auto
  qed
qed

theorem GetInputString_bounds_witness:
  "(4 :: int) \<le> int (length [0, 0, 0, 0 :: 8 word])
   \<and> GetInputString [0, 0, 0, 0] 4 [Byte 97, Byte 13, Byte 10, Byte 98]
       = Returned [97, 10, 0, 0] 2 [Byte 98]
   \<and> length [97, 10, 0, 0 :: 8 word] = length [0, 0, 0, 0 :: 8 word]
   \<and> drop 2 [97, 10, 0, 0 :: 8 word] = drop 2 [0, 0, 0, 0]
   \<and> 13 \<notin> set (take 2 [97, 10, 0, 0 :: 8 word])
   \<and> [97, 10, 0, 0 :: 8 word] ! (2 - 1) = 10
   \<and> 10 \<notin> set (take (2 - 1) [97, 10, 0, 0 :: 8 word])
   \<and> (\<exists>r \<in> set [Byte 97, Byte 13, Byte 10, Byte 98]. getc_value r = 10)
   \<and> GetInputString [0, 0, 0, 0] 4 [Byte 97, Byte 13] = Blocked [97, 0, 0, 0] 1
   \<and> take 1 [97, 0, 0, 0 :: 8 word] = kept [Byte 97, Byte 13]
   \<and> drop 1 [97, 0, 0, 0 :: 8 word] = drop 1 [0, 0, 0, 0]"
proof -
  have h: "(4 :: int) \<le> int (length [0, 0, 0, 0 :: 8 word])" by simp
  have r: "GetInputString [0, 0, 0, 0] 4 [Byte 97, Byte 13, Byte 10, Byte 98]
       = Returned [97, 10, 0, 0] 2 [Byte 98]"
    by (simp add: GetInputString_def)
  have b: "GetInputString [0, 0, 0, 0] 4 [Byte 97, Byte 13] = Blocked [97, 0, 0, 0] 1"
    by (simp add: GetInputString_def)
  have l: "\<exists>r \<in> set [Byte 97, Byte 13, Byte 10, Byte 98]. getc_value r = 10" by simp
  from GetInputString_bounds [OF h, of "[Byte 97, Byte 13, Byte 10, Byte 98]"] r
  have "length [97, 10, 0, 0 :: 8 word] = length [0, 0, 0, 0 :: 8 word]
     \<and> drop 2 [97, 10, 0, 0 :: 8 word] = drop 2 [0, 0, 0, 0]
     \<and> 13 \<notin> set (take 2 [97, 10, 0, 0 :: 8 word])
     \<and> 10 \<notin> set (take (2 - 1) [97, 10, 0, 0 :: 8 word])"
    by blast
  moreover from GetInputString_bounds [OF h, of "[Byte 97, Byte 13]"] b
  have "take 1 [97, 0, 0, 0 :: 8 word] = kept [Byte 97, Byte 13]
     \<and> drop 1 [97, 0, 0, 0 :: 8 word] = drop 1 [0, 0, 0, 0]"
    by blast
  ultimately show ?thesis using h r b l by (simp add: kept_simps)
qed

end
